theory Spec2Isabelle
  imports Main "HOL-Library.Word" "HOL-Library.Sublist"
begin

section \<open>Strings as the agent code uses them\<close>

text \<open>
  \<open>std::string\<close> is a byte string: a \<open>char list\<close>. \<open>find\<close> returns the position of the
  first occurrence at or after a start position, \<open>npos\<close> (here \<open>None\<close>) when there is none
  or when the start position lies beyond the end.
\<close>

fun first_occurrence :: "char \<Rightarrow> string \<Rightarrow> nat option" where
  "first_occurrence c [] = None"
| "first_occurrence c (x # xs) =
     (if x = c then Some 0 else map_option Suc (first_occurrence c xs))"

definition string_find :: "string \<Rightarrow> char \<Rightarrow> nat \<Rightarrow> nat option" where
  "string_find s c pos =
     (if length s < pos then None
      else map_option (\<lambda>k. pos + k) (first_occurrence c (drop pos s)))"

lemma first_occurrence_bound: "first_occurrence c s = Some k \<Longrightarrow> k < length s"
  by (induction s arbitrary: k) (auto split: if_splits)

lemma string_find_bounds:
  "string_find s c pos = Some e \<Longrightarrow> pos \<le> e \<and> e < length s"
  by (auto simp: string_find_def split: if_splits dest!: first_occurrence_bound)

section \<open>Clone: the download list of \<open>_clone_copy\<close>\<close>

definition newline :: char where
  "newline = CHR 0x0A"

text \<open>The test of lines 1149 and 1161: longer than four bytes and the last four are \<open>.hdr\<close>.\<close>

definition is_header_file :: "string \<Rightarrow> bool" where
  "is_header_file file_name =
     (4 < length file_name \<and> take 4 (drop (length file_name - 4) file_name) = ''.hdr'')"

text \<open>A header file goes to the back of the list, any other name to the front.\<close>

definition place_file_name :: "string \<Rightarrow> string list \<Rightarrow> string list" where
  "place_file_name file_name file_name_list =
     (if is_header_file file_name then file_name_list @ [file_name]
      else file_name # file_name_list)"

text \<open>
  The splitting loop of lines 1143 to 1157. At every test of the loop condition
  \<open>end_position\<close> is \<open>find("\n", start_position)\<close>, so the loop state is the start
  position and the list built so far. \<open>substr\<close> is called with a start position that is
  at most the size of the string (see \<open>split_file_list_start\<close>), where it is
  \<open>take n (drop pos s)\<close>.
\<close>

function split_file_list :: "string \<Rightarrow> nat \<Rightarrow> string list \<Rightarrow> nat \<times> string list" where
  "split_file_list file_list_str start_position file_name_list =
     (case string_find file_list_str newline start_position of
        None \<Rightarrow> (start_position, file_name_list)
      | Some end_position \<Rightarrow>
          split_file_list file_list_str (end_position + 1)
            (place_file_name
               (take (end_position - start_position) (drop start_position file_list_str))
               file_name_list))"
  by pat_completeness auto
termination
  by (relation "measure (\<lambda>(s, start, l). Suc (length s) - start)")
     (auto dest!: string_find_bounds)

text \<open>Lines 1139 to 1166: the loop, then the part after the last newline when it is not empty.\<close>

definition clone_file_name_list :: "string \<Rightarrow> string list" where
  "clone_file_name_list file_list_str =
     (case split_file_list file_list_str 0 [] of
        (start_position, file_name_list) \<Rightarrow>
          if start_position \<noteq> length file_list_str
          then place_file_name
                 (take (length file_list_str - start_position)
                    (drop start_position file_list_str))
                 file_name_list
          else file_name_list)"

declare split_file_list.simps [simp del]

section \<open>Thrift types of the task requests\<close>

text \<open>
  Modelled from the spec: the thrift enums \<open>TTaskType\<close>, \<open>TPriority\<close> and \<open>TPushType\<close>
  and the status enum \<open>AgentStatus\<close> are declared in headers that are not part of the
  sources (\<open>gen_cpp/Types_types.h\<close>, \<open>agent/status.h\<close>). Their members are the task
  kinds, priorities, push subtypes and error kinds that the specification lists; the
  functions below only compare them for equality.
\<close>

datatype TTaskType =
    TTaskType_CREATE | TTaskType_DROP | TTaskType_PUSH | TTaskType_DELETE
  | TTaskType_SCHEMA_CHANGE | TTaskType_ROLLUP | TTaskType_CLONE
  | TTaskType_STORAGE_MEDIUM_MIGRATE | TTaskType_CANCEL_DELETE
  | TTaskType_CHECK_CONSISTENCY | TTaskType_MAKE_SNAPSHOT | TTaskType_RELEASE_SNAPSHOT
  | TTaskType_UPLOAD | TTaskType_RESTORE

datatype TPriority = TPriority_NORMAL | TPriority_HIGH

datatype TPushType = TPushType_LOAD | TPushType_DELETE | TPushType_LOAD_DELETE

datatype AgentStatus =
    PALO_SUCCESS | PALO_ERROR | PALO_TASK_REQUEST_ERROR
  | PALO_CREATE_TABLE_EXIST | PALO_FILE_DOWNLOAD_FAILED

text \<open>
  The fields of \<open>TAgentTaskRequest\<close> that the pool reads. An optional thrift field is an
  \<open>option\<close>: \<open>resource_info = Some u\<close> stands for \<open>__isset.resource_info\<close> with
  \<open>resource_info.user = u\<close>.
\<close>

record TAgentTaskRequest =
  task_type :: TTaskType
  signature :: "64 word"
  resource_info :: "string option"
  priority :: "TPriority option"
  push_type :: TPushType

section \<open>Single precision shares\<close>

text \<open>
  Lines 328 to 336 divide two integers in \<open>double\<close> and store the quotient in a
  \<open>float\<close>. The model keeps the values of IEEE 754 arithmetic that can arise there:
  \<open>Finite m e\<close> is the number \<open>m * 2 ^ e\<close>, a division by zero gives an infinity, or
  \<open>NaN\<close> for \<open>0 / 0\<close>. The operands are 32 bit integers, so every non-zero quotient lies
  between \<open>2 ^ - 32\<close> and \<open>2 ^ 32\<close>, well inside the normal range of both formats:
  rounding to nearest (ties to even) to 53 and then to 24 significant bits is all that
  happens to it.
\<close>

datatype fp = Finite int int | PosInf | NegInf | NaN

function bit_length :: "int \<Rightarrow> nat" where
  "bit_length n = (if n \<le> 0 then 0 else Suc (bit_length (n div 2)))"
  by pat_completeness auto
termination
  by (relation "measure nat") auto

declare bit_length.simps [simp del]

definition round_half_even :: "int \<Rightarrow> int \<Rightarrow> int" where
  "round_half_even a b =
     (let q = a div b; r = a mod b
      in if 2 * r < b then q
         else if b < 2 * r then q + 1
         else if even q then q else q + 1)"

text \<open>
  \<open>round_to_precision p a b\<close>, for positive \<open>a\<close> and \<open>b\<close>, is the pair \<open>(m, x)\<close> with
  \<open>m * 2 ^ x\<close> the number of \<open>p\<close> significant bits nearest to \<open>a / b\<close>: \<open>e\<close> is the
  exponent of the leading bit of the quotient.
\<close>

definition round_to_precision :: "nat \<Rightarrow> int \<Rightarrow> int \<Rightarrow> int \<times> int" where
  "round_to_precision p a b =
     (let d = int (bit_length a) - int (bit_length b);
          e = (if (if 0 \<le> d then b * 2 ^ nat d \<le> a else b \<le> a * 2 ^ nat (- d))
               then d else d - 1);
          s = int p - 1 - e
      in (if 0 \<le> s then round_half_even (a * 2 ^ nat s) b
          else round_half_even a (b * 2 ^ nat (- s)),
          - s))"

definition double_div :: "int \<Rightarrow> int \<Rightarrow> fp" where
  "double_div a b =
     (if b = 0 then (if a = 0 then NaN else if 0 < a then PosInf else NegInf)
      else if a = 0 then Finite 0 0
      else (case round_to_precision 53 \<bar>a\<bar> \<bar>b\<bar> of
              (m, x) \<Rightarrow> Finite (sgn a * sgn b * m) x))"

fun double_to_float :: "fp \<Rightarrow> fp" where
  "double_to_float (Finite m x) =
     (if m = 0 then Finite 0 0
      else (case round_to_precision 24 \<bar>m\<bar> 1 of
              (m', x') \<Rightarrow> Finite (sgn m * m') (x + x')))"
| "double_to_float v = v"

text \<open>The comparison \<open><=\<close> of two floats: false as soon as one side is \<open>NaN\<close>.\<close>

fun fp_le :: "fp \<Rightarrow> fp \<Rightarrow> bool" where
  "fp_le NaN _ = False"
| "fp_le _ NaN = False"
| "fp_le NegInf _ = True"
| "fp_le _ PosInf = True"
| "fp_le PosInf _ = False"
| "fp_le _ NegInf = False"
| "fp_le (Finite m1 e1) (Finite m2 e2) =
     (m1 * 2 ^ nat (e1 - min e1 e2) \<le> m2 * 2 ^ nat (e2 - min e1 e2))"

section \<open>The signature registry\<close>

text \<open>
  The four static maps of lines 69 to 72. They are only ever read and written through
  \<open>operator[]\<close>, which gives a missing key the value zero (the empty set), so each map
  is a total function. The counters are \<open>uint32_t\<close>.
\<close>

record registry =
  s_task_signatures :: "TTaskType \<Rightarrow> 64 word set"
  s_running_task_user_count :: "TTaskType \<Rightarrow> string \<Rightarrow> 32 word"
  s_total_task_user_count :: "TTaskType \<Rightarrow> string \<Rightarrow> 32 word"
  s_total_task_count :: "TTaskType \<Rightarrow> 32 word"

text \<open>A pool: its queue \<open>_tasks\<close>, and the registry that all pools share.\<close>

record pool =
  tasks :: "TAgentTaskRequest list"
  reg :: registry

definition record_task_info ::
  "registry \<Rightarrow> TTaskType \<Rightarrow> 64 word \<Rightarrow> string \<Rightarrow> bool \<times> registry" where
  "record_task_info r ty sig user =
     (if sig \<in> s_task_signatures r ty then (False, r)
      else
        (let r1 = r\<lparr>s_task_signatures :=
                      (s_task_signatures r)(ty := insert sig (s_task_signatures r ty))\<rparr>
         in if ty = TTaskType_PUSH
            then (True,
                  r1\<lparr>s_total_task_user_count :=
                        (s_total_task_user_count r1)
                          (ty := (s_total_task_user_count r1 ty)
                                   (user := s_total_task_user_count r1 ty user + 1)),
                      s_total_task_count :=
                        (s_total_task_count r1)(ty := s_total_task_count r1 ty + 1)\<rparr>)
            else (True, r1)))"

definition task_user :: "TAgentTaskRequest \<Rightarrow> string" where
  "task_user task = (case resource_info task of Some u \<Rightarrow> u | None \<Rightarrow> [])"

definition submit_task :: "pool \<Rightarrow> TAgentTaskRequest \<Rightarrow> pool" where
  "submit_task p task =
     (case record_task_info (reg p) (task_type task) (signature task) (task_user task) of
        (ret, r') \<Rightarrow>
          if ret then p\<lparr>tasks := tasks p @ [task], reg := r'\<rparr>
          else p\<lparr>reg := r'\<rparr>)"

text \<open>
  \<open>_remove_task_info\<close>, lines 232 to 252: the signature is erased, and for a push task
  the two totals and the running count of the user given are each decremented.
\<close>

definition remove_task_info :: "registry \<Rightarrow> TTaskType \<Rightarrow> 64 word \<Rightarrow> string \<Rightarrow> registry" where
  "remove_task_info r ty sig user =
     (let r1 = r\<lparr>s_task_signatures :=
                   (s_task_signatures r)(ty := s_task_signatures r ty - {sig})\<rparr>
      in if ty = TTaskType_PUSH
         then r1\<lparr>s_total_task_user_count :=
                   (s_total_task_user_count r1)
                     (ty := (s_total_task_user_count r1 ty)
                              (user := s_total_task_user_count r1 ty user - 1)),
                 s_total_task_count :=
                   (s_total_task_count r1)(ty := s_total_task_count r1 ty - 1),
                 s_running_task_user_count :=
                   (s_running_task_user_count r1)
                     (ty := (s_running_task_user_count r1 ty)
                              (user := s_running_task_user_count r1 ty user - 1))\<rparr>
         else r1)"

section \<open>Selection of the next push task\<close>

definition user_total_rate :: "registry \<Rightarrow> TTaskType \<Rightarrow> string \<Rightarrow> fp" where
  "user_total_rate r ty user =
     double_to_float
       (double_div (uint (s_total_task_user_count r ty user)) (uint (s_total_task_count r ty)))"

definition user_running_rate :: "registry \<Rightarrow> 32 word \<Rightarrow> TTaskType \<Rightarrow> string \<Rightarrow> fp" where
  "user_running_rate r thread_count ty user =
     double_to_float
       (double_div (uint (s_running_task_user_count r ty user + 1)) (sint thread_count))"

text \<open>
  The loop of lines 309 to 354, for a queue of fewer than \<open>2 ^ 31\<close> tasks, whose
  positions the counter \<open>uint32_t i\<close> and the \<open>int32_t index\<close> hold as they are. Its
  state is the position \<open>i\<close>, the variable \<open>user\<close>, which
  a task without \<open>resource_info\<close> leaves as the iteration before set it, and the set
  \<open>improper_users\<close>. The result is the position at which the loop breaks and the value of
  \<open>user\<close> there, or \<open>None\<close> when the loop runs to the end.
\<close>

fun scan_tasks ::
  "registry \<Rightarrow> 32 word \<Rightarrow> TPriority \<Rightarrow> TAgentTaskRequest list \<Rightarrow> nat \<Rightarrow> string \<Rightarrow> string set
     \<Rightarrow> (nat \<times> string) option" where
  "scan_tasks r thread_count prio [] i user improper_users = None"
| "scan_tasks r thread_count prio (task # rest) i user improper_users =
     (let user = (case resource_info task of Some u \<Rightarrow> u | None \<Rightarrow> user)
      in if prio = TPriority_HIGH then
           (if priority task = Some TPriority_HIGH then Some (i, user)
            else scan_tasks r thread_count prio rest (Suc i) user improper_users)
         else if user \<in> improper_users then
           scan_tasks r thread_count prio rest (Suc i) user improper_users
         else if s_running_task_user_count r (task_type task) user = 0
                 \<or> fp_le (user_running_rate r thread_count (task_type task) user)
                      (user_total_rate r (task_type task) user)
           then Some (i, user)
         else scan_tasks r thread_count prio rest (Suc i) user (insert user improper_users))"

definition mark_running :: "registry \<Rightarrow> TTaskType \<Rightarrow> string \<Rightarrow> registry" where
  "mark_running r ty user =
     r\<lparr>s_running_task_user_count :=
         (s_running_task_user_count r)
           (ty := (s_running_task_user_count r ty)
                    (user := s_running_task_user_count r ty user + 1))\<rparr>"

datatype fault = Undefined_behaviour | Out_of_range

text \<open>
  \<open>_get_next_task_index\<close>. The \<open>int32_t index\<close> is returned as \<open>uint32_t\<close>: \<open>-1\<close> is the
  word \<open>- 1\<close>, which the caller reads back into an \<open>int32_t\<close>. On an empty queue a
  normal lane worker would read \<open>tasks[0]\<close>, which is undefined behaviour.
\<close>

definition get_next_task_index ::
  "registry \<Rightarrow> 32 word \<Rightarrow> TAgentTaskRequest list \<Rightarrow> TPriority \<Rightarrow> fault + 32 word \<times> registry" where
  "get_next_task_index r thread_count q prio =
     (case scan_tasks r thread_count prio q 0 [] {} of
        Some (i, user) \<Rightarrow> Inr (word_of_nat i, mark_running r (task_type (q ! i)) user)
      | None \<Rightarrow>
          if prio = TPriority_HIGH then Inr (- 1, r)
          else (case q of
                  [] \<Rightarrow> Inl Undefined_behaviour
                | head # _ \<Rightarrow> Inr (0, mark_running r (task_type head) (task_user head))))"

text \<open>
  One pass of a push worker through lines 678 to 701: it waits while the queue is empty,
  asks for an index, and either gives up (negative index) or takes the task at that index
  out of the queue.
\<close>

datatype selection = Waiting | No_high_priority_task | Selected TAgentTaskRequest

definition push_worker_select ::
  "TPriority \<Rightarrow> 32 word \<Rightarrow> pool \<Rightarrow> fault + selection \<times> pool" where
  "push_worker_select prio thread_count p =
     (if tasks p = [] then Inr (Waiting, p)
      else (case get_next_task_index (reg p) thread_count (tasks p) prio of
              Inl f \<Rightarrow> Inl f
            | Inr (index, r') \<Rightarrow>
                if sint index < 0 then Inr (No_high_priority_task, p\<lparr>reg := r'\<rparr>)
                else if nat (sint index) < length (tasks p)
                then Inr (Selected (tasks p ! nat (sint index)),
                          p\<lparr>tasks := take (nat (sint index)) (tasks p)
                                         @ drop (Suc (nat (sint index))) (tasks p),
                            reg := r'\<rparr>)
                else Inl Undefined_behaviour))"

section \<open>Reporting a result: \<open>_finish_task\<close>\<close>

definition TASK_FINISH_MAX_RETRY :: nat where
  "TASK_FINISH_MAX_RETRY = 3"

definition PUSH_MAX_RETRY :: nat where
  "PUSH_MAX_RETRY = 1"

text \<open>
  Modelled from the spec: \<open>config::sleep_one_second\<close> is declared in a header that is not
  part of the sources; the specification gives the pause after a failed attempt as one
  second.
\<close>

definition sleep_one_second :: nat where
  "sleep_one_second = 1"

text \<open>
  What \<open>_finish_task\<close> does is the sequence of its calls: the coordinator RPC with the
  status it came back with, and \<open>sleep\<close> with its argument. The coordinator is outside
  the program: \<open>rpc k\<close> is the status of the call made after \<open>k\<close> failed ones. The loop
  of lines 284 to 297 breaks before the \<open>sleep\<close> on success, and sleeps after a failure.
\<close>

datatype finish_event = Finish_rpc AgentStatus | Sleep nat

function finish_task_from :: "(nat \<Rightarrow> AgentStatus) \<Rightarrow> nat \<Rightarrow> finish_event list" where
  "finish_task_from rpc try_time =
     (if try_time < TASK_FINISH_MAX_RETRY then
        (let client_status = rpc try_time
         in if client_status = PALO_SUCCESS then [Finish_rpc client_status]
            else Finish_rpc client_status # Sleep sleep_one_second
                   # finish_task_from rpc (try_time + 1))
      else [])"
  by pat_completeness auto
termination
  by (relation "measure (\<lambda>(rpc, try_time). TASK_FINISH_MAX_RETRY - try_time)") auto

declare finish_task_from.simps [simp del]

definition finish_task :: "(nat \<Rightarrow> AgentStatus) \<Rightarrow> finish_event list" where
  "finish_task rpc = finish_task_from rpc 0"

definition rpc_calls :: "finish_event list \<Rightarrow> AgentStatus list" where
  "rpc_calls evs = concat (map (\<lambda>ev. case ev of Finish_rpc st \<Rightarrow> [st] | Sleep _ \<Rightarrow> []) evs)"

section \<open>Executing a push task\<close>

text \<open>
  Lines 715 to 751. The pusher is outside the program: \<open>init_status\<close> is what
  \<open>pusher.init()\<close> returns and \<open>process k\<close> what the call of \<open>pusher.process\<close> made after
  \<open>k\<close> retried ones returns; \<open>delete_ok\<close> says whether \<open>delete_data\<close> succeeds. The
  result is the final status and the statuses of the calls of \<open>process\<close>, in order.
\<close>

function push_process_from ::
  "(nat \<Rightarrow> AgentStatus) \<Rightarrow> nat \<Rightarrow> AgentStatus \<Rightarrow> AgentStatus list
     \<Rightarrow> AgentStatus \<times> AgentStatus list" where
  "push_process_from process retry_time status calls =
     (if retry_time < PUSH_MAX_RETRY then
        (let status = process retry_time
         in if status = PALO_ERROR
            then push_process_from process (retry_time + 1) status (calls @ [status])
            else (status, calls @ [status]))
      else (status, calls))"
  by pat_completeness auto
termination
  by (relation "measure (\<lambda>(process, retry_time, status, calls). PUSH_MAX_RETRY - retry_time)")
     auto

declare push_process_from.simps [simp del]

definition push_execute ::
  "TPushType \<Rightarrow> AgentStatus \<Rightarrow> (nat \<Rightarrow> AgentStatus) \<Rightarrow> bool
     \<Rightarrow> AgentStatus \<times> AgentStatus list" where
  "push_execute ptype init_status process delete_ok =
     (if ptype = TPushType_LOAD \<or> ptype = TPushType_LOAD_DELETE then
        (if init_status = PALO_SUCCESS then push_process_from process 0 init_status []
         else (init_status, []))
      else if ptype = TPushType_DELETE then
        (if delete_ok then (PALO_SUCCESS, []) else (PALO_ERROR, []))
      else (PALO_TASK_REQUEST_ERROR, []))"

section \<open>Restore: the new name of a downloaded file\<close>

definition last_occurrence :: "char \<Rightarrow> string \<Rightarrow> nat option" where
  "last_occurrence c s = map_option (\<lambda>k. length s - Suc k) (first_occurrence c (rev s))"

text \<open>
  Lines 1822 to 1848, for one regular file below the restore directory. \<open>tablet_id\<close> is
  the decimal text that the stream writes for \<open>restore_request.tablet_id\<close>. The result
  is \<open>None\<close> where the loop continues without renaming, the new path where it renames,
  and a fault where \<open>substr\<close> throws because the separator was not found (\<open>npos\<close> is
  beyond the end of the name). Positions are kept in \<open>uint32_t\<close>, which is exact for a
  path of fewer than \<open>2 ^ 32 - 1\<close> bytes.
\<close>

definition restore_new_path :: "string \<Rightarrow> string \<Rightarrow> fault + string option" where
  "restore_new_path tablet_id file_path_str =
     (let slash_pos = last_occurrence CHR ''/'' file_path_str;
          file_name = (case slash_pos of None \<Rightarrow> file_path_str
                       | Some p \<Rightarrow> drop (p + 1) file_path_str)
      in if length file_name \<le> 4 then Inr None
         else
           (let file_path_suffix = drop (length file_name - 4) file_name
            in if file_path_suffix \<noteq> ''.hdr'' \<and> file_path_suffix \<noteq> ''.idx''
                  \<and> file_path_suffix \<noteq> ''.dat''
               then Inr None
               else
                 (let sperator = (if file_path_suffix = ''.hdr'' then CHR ''.'' else CHR ''_'')
                  in case string_find file_name sperator 0 of
                       None \<Rightarrow> Inl Out_of_range
                     | Some sperator_pos \<Rightarrow>
                         Inr (Some ((case slash_pos of None \<Rightarrow> file_path_str
                                     | Some p \<Rightarrow> take p file_path_str)
                                    @ ''/'' @ tablet_id @ drop sperator_pos file_name)))))"

text \<open>
  The renaming as the specification words it, for comparison: the part of the name before
  its last separator is replaced.
\<close>

definition name_after_last_separator :: "string \<Rightarrow> string \<Rightarrow> string option" where
  "name_after_last_separator tablet_id file_name =
     (let sperator = (if suffix ''.hdr'' file_name then CHR ''.'' else CHR ''_'')
      in map_option (\<lambda>pos. tablet_id @ drop pos file_name) (last_occurrence sperator file_name))"

section \<open>Sample inputs\<close>

text \<open>
  A registry with nothing in flight, a push task, two behaviours of an external call, and
  pools, registries and queues for the scenarios below.
\<close>

definition idle_registry :: registry where
  "idle_registry =
     \<lparr>s_task_signatures = (\<lambda>ty. {}),
      s_running_task_user_count = (\<lambda>ty user. 0),
      s_total_task_user_count = (\<lambda>ty user. 0),
      s_total_task_count = (\<lambda>ty. 0)\<rparr>"

definition push_task :: "64 word \<Rightarrow> string option \<Rightarrow> TPriority option \<Rightarrow> TAgentTaskRequest" where
  "push_task sig user prio =
     \<lparr>task_type = TTaskType_PUSH, signature = sig, resource_info = user,
      priority = prio, push_type = TPushType_LOAD\<rparr>"

definition always_PALO_ERROR :: "nat \<Rightarrow> AgentStatus" where
  "always_PALO_ERROR k = PALO_ERROR"

definition error_twice_then_success :: "nat \<Rightarrow> AgentStatus" where
  "error_twice_then_success k = (if k < 2 then PALO_ERROR else PALO_SUCCESS)"

definition priority_lane_pool :: pool where
  "priority_lane_pool =
     \<lparr>tasks = [push_task 1 (Some ''A'') (Some TPriority_NORMAL),
               push_task 2 (Some ''B'') (Some TPriority_HIGH)],
      reg = idle_registry\<rparr>"

definition normal_only_pool :: pool where
  "normal_only_pool =
     \<lparr>tasks = [push_task 1 (Some ''A'') (Some TPriority_NORMAL)], reg = idle_registry\<rparr>"

definition shared_registry :: registry where
  "shared_registry =
     \<lparr>s_task_signatures = (\<lambda>ty. if ty = TTaskType_PUSH then {1, 2, 3} else {}),
      s_running_task_user_count =
        (\<lambda>ty user. if ty = TTaskType_PUSH \<and> user = ''A'' then 1 else 0),
      s_total_task_user_count =
        (\<lambda>ty user. if ty = TTaskType_PUSH \<and> user = ''A'' then 2
                    else if ty = TTaskType_PUSH \<and> user = [] then 1 else 0),
      s_total_task_count = (\<lambda>ty. if ty = TTaskType_PUSH then 3 else 0)\<rparr>"

definition stale_user_queue :: "TAgentTaskRequest list" where
  "stale_user_queue = [push_task 2 (Some ''A'') None, push_task 3 None None]"

definition drained_registry :: registry where
  "drained_registry =
     \<lparr>s_task_signatures = (\<lambda>ty. {}),
      s_running_task_user_count =
        (\<lambda>ty user. if ty = TTaskType_PUSH \<and> user = [] then - 1
                    else if ty = TTaskType_PUSH \<and> user = ''A'' then 1 else 0),
      s_total_task_user_count = (\<lambda>ty user. 0),
      s_total_task_count = (\<lambda>ty. 0)\<rparr>"



definition stale_high_pool :: pool where
  "stale_high_pool =
     submit_task
       (submit_task \<lparr>tasks = [], reg = idle_registry\<rparr> (push_task 1 (Some ''A'') None))
       (push_task 2 None (Some TPriority_HIGH))"

section \<open>Order in a download list\<close>

text \<open>
  \<open>positioned_last P l\<close>: in \<open>l\<close> every name with \<open>P\<close> comes after every name without.
  \<open>headers_at_back\<close> is the shape that the splitting loop maintains.
\<close>

definition positioned_last :: "(string \<Rightarrow> bool) \<Rightarrow> string list \<Rightarrow> bool" where
  "positioned_last P l =
     (\<forall>i < length l. \<forall>j < length l. P (l ! i) \<and> \<not> P (l ! j) \<longrightarrow> j < i)"

definition headers_at_back :: "string list \<Rightarrow> bool" where
  "headers_at_back l =
     (\<exists>ys zs. l = ys @ zs \<and> (\<forall>y \<in> set ys. \<not> is_header_file y)
        \<and> (\<forall>z \<in> set zs. is_header_file z))"

section \<open>The tests that the claims speak of\<close>

text \<open>
  A task is high when its priority is set and is \<open>HIGH\<close>. A user is within their share
  when the test of lines 347 and 348 holds for them; a task is proper when its own user
  is, the user of a task without \<open>resource_info\<close> being the empty name under which
  \<open>submit_task\<close> registered it. \<open>share_admit_guarded\<close> is the admitted share as the
  specification asks for it, zero when nothing is admitted. A name has a data suffix when
  it ends in \<open>.hdr\<close>, \<open>.idx\<close> or \<open>.dat\<close>.
\<close>

definition is_high :: "TAgentTaskRequest \<Rightarrow> bool" where
  "is_high task = (priority task = Some TPriority_HIGH)"


definition within_share :: "registry \<Rightarrow> 32 word \<Rightarrow> TTaskType \<Rightarrow> string \<Rightarrow> bool" where
  "within_share r thread_count ty user =
     (s_running_task_user_count r ty user = 0
      \<or> fp_le (user_running_rate r thread_count ty user) (user_total_rate r ty user))"

definition proper :: "registry \<Rightarrow> 32 word \<Rightarrow> TAgentTaskRequest \<Rightarrow> bool" where
  "proper r thread_count task = within_share r thread_count (task_type task) (task_user task)"


definition has_data_suffix :: "string \<Rightarrow> bool" where
  "has_data_suffix file_name =
     (suffix ''.hdr'' file_name \<or> suffix ''.idx'' file_name \<or> suffix ''.dat'' file_name)"

section \<open>Properties of \<open>submit_task\<close>\<close>

text \<open>
  Claim C3. Submitting a task whose signature is already in flight for its kind changes
  nothing: neither the queue nor the registry. Otherwise the task is appended to the
  queue and its signature inserted; a push task adds one to the total of its user and to
  the total of the kind (in \<open>uint32_t\<close>), any other kind leaves the counters alone. The
  running counters are never touched.
\<close>

theorem submit_task_registers:
  "(signature task \<in> s_task_signatures (reg p) (task_type task) \<longrightarrow> submit_task p task = p)
   \<and> (signature task \<notin> s_task_signatures (reg p) (task_type task) \<longrightarrow>
        tasks (submit_task p task) = tasks p @ [task]
        \<and> s_task_signatures (reg (submit_task p task)) =
            (s_task_signatures (reg p))
              (task_type task := insert (signature task)
                                   (s_task_signatures (reg p) (task_type task)))
        \<and> s_running_task_user_count (reg (submit_task p task)) =
            s_running_task_user_count (reg p)
        \<and> (task_type task = TTaskType_PUSH \<longrightarrow>
              s_total_task_user_count (reg (submit_task p task)) =
                (s_total_task_user_count (reg p))
                  (TTaskType_PUSH :=
                     (s_total_task_user_count (reg p) TTaskType_PUSH)
                       (task_user task :=
                          s_total_task_user_count (reg p) TTaskType_PUSH (task_user task) + 1))
              \<and> s_total_task_count (reg (submit_task p task)) =
                  (s_total_task_count (reg p))
                    (TTaskType_PUSH := s_total_task_count (reg p) TTaskType_PUSH + 1))
        \<and> (task_type task \<noteq> TTaskType_PUSH \<longrightarrow>
              s_total_task_user_count (reg (submit_task p task)) =
                s_total_task_user_count (reg p)
              \<and> s_total_task_count (reg (submit_task p task)) = s_total_task_count (reg p)))"
  by (simp add: submit_task_def record_task_info_def Let_def)

theorem submit_task_registers_witness:
  "signature (push_task 7 (Some ''A'') None)
     \<notin> s_task_signatures (reg \<lparr>tasks = [], reg = idle_registry\<rparr>) TTaskType_PUSH
   \<and> tasks (submit_task \<lparr>tasks = [], reg = idle_registry\<rparr> (push_task 7 (Some ''A'') None))
       = [push_task 7 (Some ''A'') None]
   \<and> s_total_task_count
        (reg (submit_task \<lparr>tasks = [], reg = idle_registry\<rparr> (push_task 7 (Some ''A'') None)))
        TTaskType_PUSH = 1
   \<and> s_total_task_user_count
        (reg (submit_task \<lparr>tasks = [], reg = idle_registry\<rparr> (push_task 7 (Some ''A'') None)))
        TTaskType_PUSH ''A'' = 1
   \<and> signature (push_task 7 (Some ''A'') None)
       \<in> s_task_signatures
           (reg (submit_task \<lparr>tasks = [], reg = idle_registry\<rparr> (push_task 7 (Some ''A'') None)))
           TTaskType_PUSH
   \<and> submit_task
        (submit_task \<lparr>tasks = [], reg = idle_registry\<rparr> (push_task 7 (Some ''A'') None))
        (push_task 7 (Some ''A'') None)
       = submit_task \<lparr>tasks = [], reg = idle_registry\<rparr> (push_task 7 (Some ''A'') None)"
  using submit_task_registers [of "push_task 7 (Some ''A'') None" "\<lparr>tasks = [], reg = idle_registry\<rparr>"]
    submit_task_registers [of "push_task 7 (Some ''A'') None"
      "submit_task \<lparr>tasks = [], reg = idle_registry\<rparr> (push_task 7 (Some ''A'') None)"]
  by (simp add: push_task_def idle_registry_def task_user_def)

section \<open>Properties of the push retry loop\<close>

lemma push_process_once:
  "push_process_from process 0 st [] = (process 0, [process 0])"
  by (simp add: push_process_from.simps [of process 0] push_process_from.simps [of process "Suc 0"]
      PUSH_MAX_RETRY_def Let_def)

text \<open>
  Claim C4, as amended. \<open>PUSH_MAX_RETRY = 1\<close> bounds the number of attempts, not of
  repetitions: for a load whose initialisation succeeded \<open>process\<close> is called exactly
  once, and its status, \<open>PALO_ERROR\<close> included, is final.
\<close>

theorem push_process_attempted_once:
  "ptype = TPushType_LOAD \<or> ptype = TPushType_LOAD_DELETE \<Longrightarrow>
   push_execute ptype PALO_SUCCESS process delete_ok = (process 0, [process 0])"
  by (auto simp: push_execute_def push_process_once)

theorem push_process_attempted_once_witness:
  "(TPushType_LOAD = TPushType_LOAD \<or> TPushType_LOAD = TPushType_LOAD_DELETE)
   \<and> push_execute TPushType_LOAD PALO_SUCCESS always_PALO_ERROR True = (PALO_ERROR, [PALO_ERROR])"
  using push_process_attempted_once [of TPushType_LOAD always_PALO_ERROR True]
  by (simp add: always_PALO_ERROR_def)

text \<open>
  Claim C4 as stated fails: when \<open>process\<close> keeps returning \<open>PALO_ERROR\<close> it is not
  attempted twice.
\<close>

theorem push_process_two_attempts_counterexample:
  "length (snd (push_execute TPushType_LOAD PALO_SUCCESS always_PALO_ERROR True)) \<noteq> 2"
  by (simp add: push_execute_def push_process_once)

section \<open>Properties of \<open>_finish_task\<close>\<close>

lemma finish_task_unfold:
  "finish_task rpc =
     (if rpc 0 = PALO_SUCCESS then [Finish_rpc PALO_SUCCESS]
      else if rpc 1 = PALO_SUCCESS
        then [Finish_rpc (rpc 0), Sleep 1, Finish_rpc PALO_SUCCESS]
      else if rpc 2 = PALO_SUCCESS
        then [Finish_rpc (rpc 0), Sleep 1, Finish_rpc (rpc 1), Sleep 1, Finish_rpc PALO_SUCCESS]
      else [Finish_rpc (rpc 0), Sleep 1, Finish_rpc (rpc 1), Sleep 1,
            Finish_rpc (rpc 2), Sleep 1])"
proof -
  have s3: "finish_task_from rpc (Suc (Suc (Suc 0))) = []"
    by (simp add: finish_task_from.simps [of rpc "Suc (Suc (Suc 0))"] TASK_FINISH_MAX_RETRY_def)
  have s2: "finish_task_from rpc (Suc (Suc 0)) =
      (if rpc 2 = PALO_SUCCESS then [Finish_rpc PALO_SUCCESS]
       else [Finish_rpc (rpc 2), Sleep 1])"
    by (simp add: finish_task_from.simps [of rpc "Suc (Suc 0)"] TASK_FINISH_MAX_RETRY_def s3
        sleep_one_second_def Let_def numeral_2_eq_2)
  have s1: "finish_task_from rpc (Suc 0) =
      (if rpc 1 = PALO_SUCCESS then [Finish_rpc PALO_SUCCESS]
       else Finish_rpc (rpc 1) # Sleep 1 # finish_task_from rpc (Suc (Suc 0)))"
    by (simp add: finish_task_from.simps [of rpc "Suc 0"] TASK_FINISH_MAX_RETRY_def
        sleep_one_second_def Let_def)
  have s0: "finish_task_from rpc 0 =
      (if rpc 0 = PALO_SUCCESS then [Finish_rpc PALO_SUCCESS]
       else Finish_rpc (rpc 0) # Sleep 1 # finish_task_from rpc (Suc 0))"
    by (simp add: finish_task_from.simps [of rpc 0] TASK_FINISH_MAX_RETRY_def
        sleep_one_second_def Let_def)
  show ?thesis
    by (simp add: finish_task_def s0 s1 s2)
qed

text \<open>
  Claim C8. \<open>_finish_task\<close> calls the coordinator at most three times. It stops at the
  first call that succeeds, having slept one second after each failed call before it;
  when the first three calls all fail it has slept after each of them and returns with no
  successful report.
\<close>

theorem finish_task_three_attempts:
  "length (rpc_calls (finish_task rpc)) \<le> 3
   \<and> (\<forall>k < 3. rpc k = PALO_SUCCESS \<and> (\<forall>j < k. rpc j \<noteq> PALO_SUCCESS) \<longrightarrow>
         rpc_calls (finish_task rpc) = map rpc [0 ..< Suc k]
         \<and> finish_task rpc =
             concat (map (\<lambda>j. [Finish_rpc (rpc j), Sleep 1]) [0 ..< k])
               @ [Finish_rpc PALO_SUCCESS])
   \<and> ((\<forall>k < 3. rpc k \<noteq> PALO_SUCCESS) \<longrightarrow>
         rpc_calls (finish_task rpc) = [rpc 0, rpc 1, rpc 2]
         \<and> PALO_SUCCESS \<notin> set (rpc_calls (finish_task rpc))
         \<and> finish_task rpc =
             [Finish_rpc (rpc 0), Sleep 1, Finish_rpc (rpc 1), Sleep 1,
              Finish_rpc (rpc 2), Sleep 1])"
proof -
  have three: "\<And>P. (\<forall>k<3. P k) = (P 0 \<and> P (1::nat) \<and> P 2)"
    by (auto simp: numeral_3_eq_3 less_Suc_eq numeral_2_eq_2)
  have two: "\<And>P. (\<forall>k<2. P k) = (P 0 \<and> P (1::nat))"
    by (auto simp: less_Suc_eq numeral_2_eq_2)
  have u2: "[0 ..< 2] = [0, 1::nat]" by (simp add: upt_rec)
  have u3: "[0 ..< 3] = [0, 1, 2::nat]" by (simp add: upt_rec)
  show ?thesis
    unfolding three
    by (simp add: finish_task_unfold rpc_calls_def two u2 u3 numeral_2_eq_2 numeral_3_eq_3)
qed

theorem finish_task_three_attempts_witness:
  "rpc_calls (finish_task error_twice_then_success) = [PALO_ERROR, PALO_ERROR, PALO_SUCCESS]
   \<and> finish_task error_twice_then_success =
       [Finish_rpc PALO_ERROR, Sleep 1, Finish_rpc PALO_ERROR, Sleep 1, Finish_rpc PALO_SUCCESS]
   \<and> rpc_calls (finish_task always_PALO_ERROR) = [PALO_ERROR, PALO_ERROR, PALO_ERROR]
   \<and> PALO_SUCCESS \<notin> set (rpc_calls (finish_task always_PALO_ERROR))"
proof -
  have u2: "[0 ..< 2] = [0, 1::nat]" by (simp add: upt_rec)
  have u3: "[0 ..< 3] = [0, 1, 2::nat]" by (simp add: upt_rec)
  have a: "(2::nat) < 3 \<and> error_twice_then_success 2 = PALO_SUCCESS
           \<and> (\<forall>j<2. error_twice_then_success j \<noteq> PALO_SUCCESS)"
    by (simp add: error_twice_then_success_def)
  have b: "\<forall>k<3. always_PALO_ERROR k \<noteq> PALO_SUCCESS"
    by (simp add: always_PALO_ERROR_def)
  from finish_task_three_attempts [of error_twice_then_success] a
  have "rpc_calls (finish_task error_twice_then_success) = map error_twice_then_success [0 ..< Suc 2]
        \<and> finish_task error_twice_then_success =
             concat (map (\<lambda>j. [Finish_rpc (error_twice_then_success j), Sleep 1]) [0 ..< 2])
               @ [Finish_rpc PALO_SUCCESS]"
    by blast
  moreover from finish_task_three_attempts [of always_PALO_ERROR] b
  have "rpc_calls (finish_task always_PALO_ERROR)
          = [always_PALO_ERROR 0, always_PALO_ERROR 1, always_PALO_ERROR 2]
        \<and> PALO_SUCCESS \<notin> set (rpc_calls (finish_task always_PALO_ERROR))"
    by blast
  ultimately show ?thesis
    by (simp add: u2 u3 error_twice_then_success_def always_PALO_ERROR_def rpc_calls_def)
qed

section \<open>Properties of the clone download list\<close>

lemma headers_at_back_place:
  assumes "headers_at_back l"
  shows "headers_at_back (place_file_name n l)"
proof -
  from assms obtain ys zs where l: "l = ys @ zs"
    and ys: "\<forall>y \<in> set ys. \<not> is_header_file y" and zs: "\<forall>z \<in> set zs. is_header_file z"
    unfolding headers_at_back_def by blast
  show ?thesis
  proof (cases "is_header_file n")
    case True
    then have "place_file_name n l = ys @ (zs @ [n])" by (simp add: place_file_name_def l)
    moreover have "\<forall>z \<in> set (zs @ [n]). is_header_file z" using zs True by simp
    ultimately show ?thesis unfolding headers_at_back_def using ys by blast
  next
    case False
    then have "place_file_name n l = (n # ys) @ zs" by (simp add: place_file_name_def l)
    moreover have "\<forall>y \<in> set (n # ys). \<not> is_header_file y" using ys False by simp
    ultimately show ?thesis unfolding headers_at_back_def using zs by blast
  qed
qed

lemma headers_at_back_split:
  "headers_at_back l \<Longrightarrow> headers_at_back (snd (split_file_list s start l))"
proof (induction s start l rule: split_file_list.induct)
  case (1 s start l)
  show ?case
  proof (cases "string_find s newline start")
    case None
    then show ?thesis using "1.prems" by (simp add: split_file_list.simps [of s start l])
  next
    case (Some e)
    then show ?thesis
      using "1.IH" [OF Some headers_at_back_place [OF "1.prems"]]
      by (simp add: split_file_list.simps [of s start l])
  qed
qed

lemma split_file_list_start:
  "start \<le> length s \<Longrightarrow> fst (split_file_list s start l) \<le> length s"
proof (induction s start l rule: split_file_list.induct)
  case (1 s start l)
  show ?case
  proof (cases "string_find s newline start")
    case None
    then show ?thesis using "1.prems" by (simp add: split_file_list.simps [of s start l])
  next
    case (Some e)
    from string_find_bounds [OF Some] have "e + 1 \<le> length s" by simp
    from "1.IH" [OF Some this] show ?thesis
      using Some by (simp add: split_file_list.simps [of s start l])
  qed
qed

lemma headers_at_back_clone: "headers_at_back (clone_file_name_list s)"
proof -
  have e: "headers_at_back []" by (simp add: headers_at_back_def)
  obtain st l where sp: "split_file_list s 0 [] = (st, l)" by (cases "split_file_list s 0 []")
  from headers_at_back_split [OF e, of s 0] sp have "headers_at_back l" by simp
  then show ?thesis
    by (simp add: clone_file_name_list_def sp headers_at_back_place)
qed

lemma headers_at_back_positioned:
  assumes "headers_at_back l"
  shows "positioned_last is_header_file l"
proof -
  from assms obtain ys zs where l: "l = ys @ zs"
    and ys: "\<forall>y \<in> set ys. \<not> is_header_file y" and zs: "\<forall>z \<in> set zs. is_header_file z"
    unfolding headers_at_back_def by blast
  show ?thesis
    unfolding positioned_last_def
  proof (intro allI impI)
    fix i j
    assume i: "i < length l" and j: "j < length l"
      and h: "is_header_file (l ! i) \<and> \<not> is_header_file (l ! j)"
    have "\<not> i < length ys"
      using h ys by (auto simp: l nth_append)
    moreover have "j < length ys"
    proof (rule ccontr)
      assume "\<not> j < length ys"
      then have "l ! j \<in> set zs" using j by (simp add: l nth_append)
      then show False using zs h by blast
    qed
    ultimately show "j < i" by simp
  qed
qed

lemmas clone_list_eval =
  split_file_list.simps clone_file_name_list_def string_find_def newline_def
  place_file_name_def is_header_file_def

text \<open>
  Claim C5 as stated fails: a name that is not a header is put in front of the names
  before it, so the listing of scenario S4 is not downloaded in the order
  \<open>data_0.dat\<close>, \<open>data_1.dat\<close>, \<open>header.hdr\<close>.
\<close>

theorem clone_order_S4_counterexample:
  "clone_file_name_list (''data_0.dat'' @ [newline] @ ''header.hdr'' @ [newline] @ ''data_1.dat'')
   \<noteq> [''data_0.dat'', ''data_1.dat'', ''header.hdr'']"
  by (simp add: clone_list_eval)

text \<open>
  Claim C5, as amended. For the listing of scenario S4 the download order is
  \<open>data_1.dat\<close>, \<open>data_0.dat\<close>, \<open>header.hdr\<close>: the header last, the other files in the
  reverse of their order in the listing.
\<close>

theorem clone_order_S4:
  "clone_file_name_list (''data_0.dat'' @ [newline] @ ''header.hdr'' @ [newline] @ ''data_1.dat'')
   = [''data_1.dat'', ''data_0.dat'', ''header.hdr'']"
  by (simp add: clone_list_eval)

text \<open>
  Claim C6 as stated fails for the name \<open>.hdr\<close> itself: it ends in \<open>.hdr\<close>, but the code
  asks for more than four bytes and puts it in front of \<open>a.dat\<close>.
\<close>

theorem clone_headers_last_counterexample:
  "\<not> positioned_last (suffix ''.hdr'') (clone_file_name_list (''a.dat'' @ [newline] @ ''.hdr''))"
proof
  assume a: "positioned_last (suffix ''.hdr'')
               (clone_file_name_list (''a.dat'' @ [newline] @ ''.hdr''))"
  have l: "clone_file_name_list (''a.dat'' @ [newline] @ ''.hdr'') = [''.hdr'', ''a.dat'']"
    by (simp add: clone_list_eval)
  have "suffix ''.hdr'' ([''.hdr'', ''a.dat''] ! 0) \<and> \<not> suffix ''.hdr'' ([''.hdr'', ''a.dat''] ! 1)"
    by (simp add: suffix_def)
  moreover have "(0::nat) < length [''.hdr'', ''a.dat'']" "(1::nat) < length [''.hdr'', ''a.dat'']"
    by simp_all
  ultimately have "(1::nat) < 0"
    using a unfolding l positioned_last_def by blast
  then show False by simp
qed

text \<open>
  Claim C6, as amended. For every listing, every name of more than four bytes that ends
  in \<open>.hdr\<close> is placed after every other name of the download list.
\<close>

theorem clone_headers_last: "positioned_last is_header_file (clone_file_name_list s)"
  by (rule headers_at_back_positioned [OF headers_at_back_clone])

theorem clone_headers_last_witness:
  "is_header_file (clone_file_name_list (''b.hdr'' @ [newline] @ ''a.dat'') ! 1)
   \<and> \<not> is_header_file (clone_file_name_list (''b.hdr'' @ [newline] @ ''a.dat'') ! 0)
   \<and> (0::nat) < 1"
  using clone_headers_last [of "''b.hdr'' @ [newline] @ ''a.dat''"]
  by (simp add: positioned_last_def clone_list_eval)

section \<open>Properties of the restore renaming\<close>

lemma first_occurrence_absent: "c \<notin> set s \<Longrightarrow> first_occurrence c s = None"
  by (induction s) auto

lemma first_occurrence_first:
  "c \<notin> set pre \<Longrightarrow> first_occurrence c (pre @ c # rest) = Some (length pre)"
  by (induction pre) auto

lemma last_occurrence_last:
  assumes "c \<notin> set name"
  shows "last_occurrence c (dir @ c # name) = Some (length dir)"
proof -
  have "first_occurrence c (rev name @ c # rev dir) = Some (length (rev name))"
    by (rule first_occurrence_first) (use assms in simp)
  then show ?thesis by (simp add: last_occurrence_def)
qed

lemma drop4_eq_suffix:
  assumes "length sfx = 4" and "4 \<le> length s"
  shows "(drop (length s - 4) s = sfx) = suffix sfx s"
proof
  assume d: "drop (length s - 4) s = sfx"
  have "s = take (length s - 4) s @ drop (length s - 4) s" by simp
  then have "s = take (length s - 4) s @ sfx" using d by simp
  then show "suffix sfx s" by (rule suffixI)
next
  assume "suffix sfx s"
  then show "drop (length s - 4) s = sfx" using assms by (auto simp: suffix_def)
qed

lemma restore_new_path_name:
  assumes "CHR ''/'' \<notin> set file_name"
  shows "restore_new_path tablet_id (dir @ ''/'' @ file_name) =
     (if length file_name \<le> 4 \<or> \<not> has_data_suffix file_name then Inr None
      else (case first_occurrence (if suffix ''.hdr'' file_name then CHR ''.'' else CHR ''_'')
                   file_name of
              None \<Rightarrow> Inl Out_of_range
            | Some pos \<Rightarrow> Inr (Some (dir @ ''/'' @ tablet_id @ drop pos file_name))))"
proof -
  have sl: "last_occurrence CHR ''/'' (dir @ CHR ''/'' # file_name) = Some (length dir)"
    by (rule last_occurrence_last [OF assms])
  show ?thesis
  proof (cases "length file_name \<le> 4")
    case True
    then show ?thesis by (simp add: restore_new_path_def sl Let_def)
  next
    case False
    then have len: "4 \<le> length file_name" by simp
    have h: "(drop (length file_name - 4) file_name = ''.hdr'') = suffix ''.hdr'' file_name"
      by (rule drop4_eq_suffix [OF _ len]) simp
    have i: "(drop (length file_name - 4) file_name = ''.idx'') = suffix ''.idx'' file_name"
      by (rule drop4_eq_suffix [OF _ len]) simp
    have d: "(drop (length file_name - 4) file_name = ''.dat'') = suffix ''.dat'' file_name"
      by (rule drop4_eq_suffix [OF _ len]) simp
    show ?thesis
      using False
      by (simp add: restore_new_path_def sl Let_def h i d has_data_suffix_def string_find_def
          split: option.splits)
  qed
qed

text \<open>
  Claim C9, as amended. For a regular file whose name, the part of the path after the
  last \<open>/\<close>, is longer than four characters and ends in \<open>.hdr\<close>, \<open>.idx\<close> or \<open>.dat\<close>,
  the restore worker replaces the part of the name before its first \<open>_\<close> (its first \<open>.\<close>
  for a \<open>.hdr\<close> file) with the tablet id, provided the name contains that separator. A
  file with a shorter name or another suffix is not renamed.
\<close>

theorem restore_renames_at_first_separator:
  assumes "CHR ''/'' \<notin> set file_name"
  shows
    "(4 < length file_name \<and> has_data_suffix file_name
        \<and> sep = (if suffix ''.hdr'' file_name then CHR ''.'' else CHR ''_'')
        \<and> file_name = pre @ sep # rest \<and> sep \<notin> set pre
      \<longrightarrow> restore_new_path tablet_id (dir @ ''/'' @ file_name)
            = Inr (Some (dir @ ''/'' @ tablet_id @ sep # rest)))
     \<and> (length file_name \<le> 4 \<or> \<not> has_data_suffix file_name
      \<longrightarrow> restore_new_path tablet_id (dir @ ''/'' @ file_name) = Inr None)"
proof (intro conjI impI)
  assume a: "4 < length file_name \<and> has_data_suffix file_name
        \<and> sep = (if suffix ''.hdr'' file_name then CHR ''.'' else CHR ''_'')
        \<and> file_name = pre @ sep # rest \<and> sep \<notin> set pre"
  then have "4 < length file_name" by blast
  then have len: "\<not> length file_name \<le> 4" by simp
  from a have ds: "has_data_suffix file_name" by blast
  from a have "sep = (if suffix ''.hdr'' file_name then CHR ''.'' else CHR ''_'')" by blast
  then have sep: "(if suffix ''.hdr'' file_name then CHR ''.'' else CHR ''_'') = sep"
    by (rule sym)
  from a have name: "file_name = pre @ sep # rest" by blast
  from a have pre: "sep \<notin> set pre" by blast
  have fo: "first_occurrence sep file_name = Some (length pre)"
    unfolding name by (rule first_occurrence_first [OF pre])
  have dr: "drop (length pre) file_name = sep # rest"
    unfolding name by simp
  have "restore_new_path tablet_id (dir @ ''/'' @ file_name) =
          (case first_occurrence sep file_name of
             None \<Rightarrow> Inl Out_of_range
           | Some pos \<Rightarrow> Inr (Some (dir @ ''/'' @ tablet_id @ drop pos file_name)))"
    unfolding restore_new_path_name [OF assms] sep using len ds by simp
  then show "restore_new_path tablet_id (dir @ ''/'' @ file_name)
            = Inr (Some (dir @ ''/'' @ tablet_id @ sep # rest))"
    unfolding fo by (simp add: dr)
next
  assume "length file_name \<le> 4 \<or> \<not> has_data_suffix file_name"
  then show "restore_new_path tablet_id (dir @ ''/'' @ file_name) = Inr None"
    unfolding restore_new_path_name [OF assms] by simp
qed

theorem restore_renames_at_first_separator_witness:
  "CHR ''/'' \<notin> set ''1_2_3.dat'' \<and> 4 < length ''1_2_3.dat'' \<and> has_data_suffix ''1_2_3.dat''
   \<and> ''1_2_3.dat'' = ''1'' @ CHR ''_'' # ''2_3.dat'' \<and> CHR ''_'' \<notin> set ''1''
   \<and> restore_new_path ''9'' (''/r/7'' @ ''/'' @ ''1_2_3.dat'') = Inr (Some ''/r/7/9_2_3.dat'')
   \<and> CHR ''/'' \<notin> set ''notes.txt'' \<and> \<not> has_data_suffix ''notes.txt''
   \<and> restore_new_path ''9'' (''/r/7'' @ ''/'' @ ''notes.txt'') = Inr None"
proof -
  have s1: "CHR ''/'' \<notin> set ''1_2_3.dat''" by simp
  have s2: "CHR ''/'' \<notin> set ''notes.txt''" by simp
  have d: "has_data_suffix ''1_2_3.dat''" "\<not> suffix ''.hdr'' ''1_2_3.dat''"
    by (simp_all add: has_data_suffix_def suffix_def)
  have n: "\<not> has_data_suffix ''notes.txt''"
    by (simp add: has_data_suffix_def suffix_def)
  show ?thesis
    using restore_renames_at_first_separator [OF s1, of "CHR ''_''" "''1''" "''2_3.dat''" "''9''" "''/r/7''"]
      restore_renames_at_first_separator [OF s2, of "CHR ''_''" "''1''" "''2_3.dat''" "''9''" "''/r/7''"]
      d n
    by simp
qed

text \<open>
  Claim C9 as stated fails: for \<open>1_2_3.dat\<close> the new name keeps everything from the
  first \<open>_\<close> on, not from the last.
\<close>

theorem restore_last_separator_counterexample:
  "restore_new_path ''9'' ''/r/7/1_2_3.dat'' = Inr (Some ''/r/7/9_2_3.dat'')
   \<and> name_after_last_separator ''9'' ''1_2_3.dat'' = Some ''9_3.dat''"
  by (simp add: restore_new_path_def name_after_last_separator_def last_occurrence_def
      string_find_def Let_def suffix_def)

section \<open>Properties of the selection\<close>

lemma scan_tasks_bounds:
  "scan_tasks r n prio q i u imp = Some (k, w) \<Longrightarrow> i \<le> k \<and> k < i + length q"
proof (induction q arbitrary: i u imp)
  case Nil
  then show ?case by simp
next
  case (Cons t rest)
  let ?u = "case resource_info t of Some x \<Rightarrow> x | None \<Rightarrow> u"
  from Cons.prems consider
      (here) "k = i"
    | (later) imp' where "scan_tasks r n prio rest (Suc i) ?u imp' = Some (k, w)"
    by (auto simp: Let_def split: if_splits)
  then show ?case
  proof cases
    case here
    then show ?thesis by simp
  next
    case later
    from Cons.IH [OF later] show ?thesis by simp
  qed
qed

lemma scan_high_none:
  "(scan_tasks r n TPriority_HIGH q i u imp = None) = (\<forall>t \<in> set q. \<not> is_high t)"
  by (induction q arbitrary: i u) (simp_all add: Let_def is_high_def)

lemma scan_high_some:
  "scan_tasks r n TPriority_HIGH q i u imp = Some (k, w) \<Longrightarrow>
     is_high (q ! (k - i)) \<and> (\<forall>j < k - i. \<not> is_high (q ! j))"
proof (induction q arbitrary: i u)
  case Nil
  then show ?case by simp
next
  case (Cons t rest)
  let ?u = "case resource_info t of Some x \<Rightarrow> x | None \<Rightarrow> u"
  show ?case
  proof (cases "is_high t")
    case True
    then have "k = i" using Cons.prems by (simp add: Let_def is_high_def)
    then show ?thesis using True by simp
  next
    case False
    then have s: "scan_tasks r n TPriority_HIGH rest (Suc i) ?u imp = Some (k, w)"
      using Cons.prems by (simp add: Let_def is_high_def)
    from scan_tasks_bounds [OF s] have ki: "k - i = Suc (k - Suc i)" by arith
    from Cons.IH [OF s] have ih: "is_high (rest ! (k - Suc i))"
      "\<forall>j < k - Suc i. \<not> is_high (rest ! j)" by simp_all
    show ?thesis
      unfolding ki using ih False by (auto simp: less_Suc_eq_0_disj)
  qed
qed

lemma sint_index:
  assumes "k < 2 ^ 31"
  shows "sint (word_of_nat k :: 32 word) = int k"
proof -
  have "sint (word_of_nat k :: 32 word) = signed_take_bit 31 (int k)"
    by (simp add: sint_uint signed_take_bit_eq_iff_take_bit_eq unsigned_of_nat take_bit_of_nat
        flip: take_bit_eq_mod)
  also have "\<dots> = int k"
    by (rule signed_take_bit_int_eq_self) (use assms in simp_all)
  finally show ?thesis .
qed


lemma high_lane_index:
  assumes len: "length q < 2 ^ 31"
  shows "\<exists>idx r'. get_next_task_index r n q TPriority_HIGH = Inr (idx, r')
     \<and> ((\<forall>t \<in> set q. \<not> is_high t) \<longrightarrow> idx = - 1 \<and> sint idx = - 1 \<and> r' = r)
     \<and> ((\<exists>t \<in> set q. is_high t) \<longrightarrow>
          0 \<le> sint idx \<and> nat (sint idx) < length q \<and> is_high (q ! nat (sint idx))
          \<and> (\<forall>j < nat (sint idx). \<not> is_high (q ! j)))"
proof (cases "scan_tasks r n TPriority_HIGH q 0 [] {}")
  case None
  then have "\<forall>t \<in> set q. \<not> is_high t" by (simp add: scan_high_none)
  then show ?thesis using None by (simp add: get_next_task_index_def)
next
  case (Some a)
  obtain k w where a: "a = (k, w)" by (cases a)
  have s: "scan_tasks r n TPriority_HIGH q 0 [] {} = Some (k, w)" using Some a by simp
  from scan_tasks_bounds [OF s] have k: "k < length q" by simp
  then have "k < 2 ^ 31" using len by simp
  then have si: "sint (word_of_nat k :: 32 word) = int k" by (rule sint_index)
  from scan_high_some [OF s] have h: "is_high (q ! k)" "\<forall>j < k. \<not> is_high (q ! j)"
    by simp_all
  have ex: "\<exists>t \<in> set q. is_high t" using h(1) k nth_mem by blast
  show ?thesis
    using s si k h ex by (simp add: get_next_task_index_def)
qed

text \<open>
  Claim C2. For a queue of fewer than \<open>2 ^ 31\<close> tasks a high lane worker's call
  returns: \<open>-1\<close> when no task is high, and otherwise the position of the first high
  task. So a task that a high lane worker takes out of the queue is high.
\<close>

theorem high_lane_selects_first_high:
  assumes len: "length (tasks p) < 2 ^ 31"
  shows "\<exists>idx r'. get_next_task_index (reg p) n (tasks p) TPriority_HIGH = Inr (idx, r')
     \<and> ((\<forall>t \<in> set (tasks p). \<not> is_high t) \<longrightarrow> sint idx = - 1)
     \<and> ((\<exists>t \<in> set (tasks p). is_high t) \<longrightarrow>
          0 \<le> sint idx \<and> nat (sint idx) < length (tasks p)
          \<and> is_high (tasks p ! nat (sint idx))
          \<and> (\<forall>j < nat (sint idx). \<not> is_high (tasks p ! j)))
     \<and> (\<forall>t p'. push_worker_select TPriority_HIGH n p = Inr (Selected t, p') \<longrightarrow> is_high t)"
proof -
  from high_lane_index [OF len, of "reg p" n] obtain idx r' where
    g: "get_next_task_index (reg p) n (tasks p) TPriority_HIGH = Inr (idx, r')"
    and none: "(\<forall>t \<in> set (tasks p). \<not> is_high t) \<longrightarrow> idx = - 1 \<and> sint idx = - 1 \<and> r' = reg p"
    and some: "(\<exists>t \<in> set (tasks p). is_high t) \<longrightarrow>
          0 \<le> sint idx \<and> nat (sint idx) < length (tasks p)
          \<and> is_high (tasks p ! nat (sint idx))
          \<and> (\<forall>j < nat (sint idx). \<not> is_high (tasks p ! j))"
    by blast
  have sel: "is_high t" if w: "push_worker_select TPriority_HIGH n p = Inr (Selected t, p')"
    for t p'
  proof (cases "\<exists>t \<in> set (tasks p). is_high t")
    case True
    with some have "is_high (tasks p ! nat (sint idx))" by blast
    moreover have "t = tasks p ! nat (sint idx)"
      using w g by (auto simp: push_worker_select_def split: if_splits)
    ultimately show ?thesis by simp
  next
    case False
    with none have "sint idx = - 1" by blast
    then show ?thesis
      using w g by (auto simp: push_worker_select_def split: if_splits)
  qed
  show ?thesis
    using g none some sel by blast
qed

theorem high_lane_selects_first_high_witness:
  "length (tasks priority_lane_pool) < 2 ^ 31
   \<and> is_high (tasks priority_lane_pool ! 1)
   \<and> \<not> is_high (tasks priority_lane_pool ! 0)
   \<and> get_next_task_index (reg priority_lane_pool) 1 (tasks priority_lane_pool) TPriority_HIGH
       = Inr (1, mark_running idle_registry TTaskType_PUSH ''B'')
   \<and> push_worker_select TPriority_HIGH 1 priority_lane_pool
       = Inr (Selected (push_task 2 (Some ''B'') (Some TPriority_HIGH)),
              \<lparr>tasks = [push_task 1 (Some ''A'') (Some TPriority_NORMAL)],
               reg = mark_running idle_registry TTaskType_PUSH ''B''\<rparr>)"
proof -
  have len: "length (tasks priority_lane_pool) < 2 ^ 31"
    by (simp add: priority_lane_pool_def)
  show ?thesis
    using high_lane_selects_first_high [OF len, of 1]
    by (simp add: priority_lane_pool_def push_worker_select_def get_next_task_index_def
        push_task_def is_high_def Let_def)
qed

text \<open>
  Claim C10. When the call of a high lane worker returns \<open>-1\<close>, the registry it hands
  back is the one it was given, and the pass of the worker leaves the pool, queue and
  registry, as it was.
\<close>

theorem high_lane_no_task_frame:
  assumes "tasks p \<noteq> []" and "length (tasks p) < 2 ^ 31"
    and "get_next_task_index (reg p) n (tasks p) TPriority_HIGH = Inr (idx, r')"
    and "sint idx = - 1"
  shows "r' = reg p \<and> push_worker_select TPriority_HIGH n p = Inr (No_high_priority_task, p)"
proof -
  from high_lane_index [OF assms(2), of "reg p" n] assms(3) have
    none: "(\<forall>t \<in> set (tasks p). \<not> is_high t) \<longrightarrow> r' = reg p"
    and some: "(\<exists>t \<in> set (tasks p). is_high t) \<longrightarrow> 0 \<le> sint idx"
    by auto
  from some assms(4) have "\<forall>t \<in> set (tasks p). \<not> is_high t" by auto
  with none have r: "r' = reg p" by blast
  show ?thesis
    using assms(1,3,4) r by (simp add: push_worker_select_def)
qed

theorem high_lane_no_task_frame_witness:
  "tasks normal_only_pool \<noteq> [] \<and> length (tasks normal_only_pool) < 2 ^ 31
   \<and> get_next_task_index (reg normal_only_pool) 1 (tasks normal_only_pool) TPriority_HIGH
       = Inr (- 1, reg normal_only_pool)
   \<and> sint (- 1 :: 32 word) = - 1
   \<and> push_worker_select TPriority_HIGH 1 normal_only_pool
       = Inr (No_high_priority_task, normal_only_pool)"
proof -
  have ne: "tasks normal_only_pool \<noteq> []" by (simp add: normal_only_pool_def)
  have len: "length (tasks normal_only_pool) < 2 ^ 31" by (simp add: normal_only_pool_def)
  have g: "get_next_task_index (reg normal_only_pool) 1 (tasks normal_only_pool) TPriority_HIGH
       = Inr (- 1, reg normal_only_pool)"
    by (simp add: normal_only_pool_def get_next_task_index_def push_task_def Let_def)
  have s: "sint (- 1 :: 32 word) = - 1" by simp
  from high_lane_no_task_frame [OF ne len g s] ne len g s show ?thesis by simp
qed

lemma stale_rates:
  "\<not> fp_le (user_running_rate shared_registry 2 TTaskType_PUSH ''A'')
         (user_total_rate shared_registry TTaskType_PUSH ''A'')"
  by code_simp

text \<open>
  Claim C1, at an input where the code departs from it. User \<open>A\<close> has one of two
  workers and two of three admitted tasks; the queue holds a task of \<open>A\<close> and then a
  task without \<open>resource_info\<close>. The first task is not proper and the second is, but
  the scan judges the second by the user left over from the first, skips it, and falls
  back to the head: index 0, counted as running for \<open>A\<close>.
\<close>

theorem normal_lane_stale_user:
  "get_next_task_index shared_registry 2 stale_user_queue TPriority_NORMAL
     = Inr (0, mark_running shared_registry TTaskType_PUSH ''A'')
   \<and> \<not> proper shared_registry 2 (stale_user_queue ! 0)
   \<and> proper shared_registry 2 (stale_user_queue ! 1)"
proof -
  have r: "s_running_task_user_count shared_registry TTaskType_PUSH ''A'' \<noteq> 0"
    "s_running_task_user_count shared_registry TTaskType_PUSH [] = 0"
    by (simp_all add: shared_registry_def)
  show ?thesis
    using stale_rates r
    by (simp add: get_next_task_index_def stale_user_queue_def push_task_def Let_def
        proper_def within_share_def task_user_def)
qed





lemma scan_normal_leftmost:
  assumes "\<forall>t \<in> set q. resource_info t \<noteq> None \<and> task_type t = ty"
    and "\<forall>x \<in> imp. \<not> within_share r n ty x"
  shows "(scan_tasks r n TPriority_NORMAL q i u imp = None \<longrightarrow> (\<forall>t \<in> set q. \<not> proper r n t))
     \<and> (\<forall>k w. scan_tasks r n TPriority_NORMAL q i u imp = Some (k, w) \<longrightarrow>
           w = task_user (q ! (k - i)) \<and> proper r n (q ! (k - i))
           \<and> (\<forall>j < k - i. \<not> proper r n (q ! j)))"
  using assms
proof (induction q arbitrary: i u imp)
  case Nil
  then show ?case by simp
next
  case (Cons t rest)
  from Cons.prems(1) obtain x where x: "resource_info t = Some x" and ty: "task_type t = ty"
    by auto
  have tu: "task_user t = x" by (simp add: task_user_def x)
  have rest: "\<forall>t \<in> set rest. resource_info t \<noteq> None \<and> task_type t = ty"
    using Cons.prems(1) by simp
  have pt: "proper r n t = within_share r n ty x" by (simp add: proper_def ty tu)
  show ?case
  proof (cases "x \<notin> imp \<and> within_share r n ty x")
    case True
    then have "scan_tasks r n TPriority_NORMAL (t # rest) i u imp = Some (i, x)"
      by (simp add: x ty within_share_def)
    then show ?thesis using True by (simp add: pt tu)
  next
    case False
    then have np: "\<not> proper r n t" using Cons.prems(2) by (auto simp: pt)
    define imp' where "imp' = (if x \<in> imp then imp else insert x imp)"
    have imp': "\<forall>y \<in> imp'. \<not> within_share r n ty y"
      using Cons.prems(2) False by (auto simp: imp'_def)
    have step: "scan_tasks r n TPriority_NORMAL (t # rest) i u imp
                  = scan_tasks r n TPriority_NORMAL rest (Suc i) x imp'"
      using False by (auto simp: x ty within_share_def imp'_def)
    note ih = Cons.IH [OF rest imp', of "Suc i" x]
    have none: "\<forall>t \<in> set (t # rest). \<not> proper r n t"
      if "scan_tasks r n TPriority_NORMAL (t # rest) i u imp = None"
    proof -
      from that have "scan_tasks r n TPriority_NORMAL rest (Suc i) x imp' = None"
        unfolding step .
      with ih have "\<forall>t \<in> set rest. \<not> proper r n t" by blast
      then show ?thesis using np by simp
    qed
    have some: "w = task_user ((t # rest) ! (k - i)) \<and> proper r n ((t # rest) ! (k - i))
           \<and> (\<forall>j < k - i. \<not> proper r n ((t # rest) ! j))"
      if "scan_tasks r n TPriority_NORMAL (t # rest) i u imp = Some (k, w)" for k w
    proof -
      from that have s: "scan_tasks r n TPriority_NORMAL rest (Suc i) x imp' = Some (k, w)"
        unfolding step .
      from scan_tasks_bounds [OF s] have ki: "k - i = Suc (k - Suc i)" by arith
      from ih s have "w = task_user (rest ! (k - Suc i)) \<and> proper r n (rest ! (k - Suc i))
           \<and> (\<forall>j < k - Suc i. \<not> proper r n (rest ! j))" by blast
      then show ?thesis
        unfolding ki using np by (auto simp: less_Suc_eq_0_disj)
    qed
    show ?thesis using none some by blast
  qed
qed


text \<open>
  Where every queued push task carries \<open>resource_info\<close> the scan does what claim C1
  says: it returns the leftmost proper task, marked as running for that task's user, and
  the head when no task is proper.
\<close>

lemma normal_lane_leftmost_proper:
  assumes ne: "q \<noteq> []" and len: "length q < 2 ^ 31"
    and set: "\<forall>t \<in> set q. resource_info t \<noteq> None \<and> task_type t = TTaskType_PUSH"
  shows "\<exists>idx r'. get_next_task_index r n q TPriority_NORMAL = Inr (idx, r')
     \<and> 0 \<le> sint idx \<and> nat (sint idx) < length q
     \<and> r' = mark_running r TTaskType_PUSH (task_user (q ! nat (sint idx)))
     \<and> ((\<exists>t \<in> set q. proper r n t) \<longrightarrow>
           proper r n (q ! nat (sint idx)) \<and> (\<forall>j < nat (sint idx). \<not> proper r n (q ! j)))
     \<and> ((\<forall>t \<in> set q. \<not> proper r n t) \<longrightarrow> idx = 0)"
proof -
  have e: "\<forall>x \<in> {}. \<not> within_share r n TTaskType_PUSH x" by simp
  note sp = scan_normal_leftmost [OF set e, of 0 "[]"]
  obtain head rest where q: "q = head # rest" using ne by (cases q) auto
  have th: "task_type head = TTaskType_PUSH" using set q by simp
  show ?thesis
  proof (cases "scan_tasks r n TPriority_NORMAL q 0 [] {}")
    case None
    with sp have "\<forall>t \<in> set q. \<not> proper r n t" by blast
    then show ?thesis
      using None by (simp add: get_next_task_index_def q th)
  next
    case (Some a)
    obtain k w where a: "a = (k, w)" by (cases a)
    have s: "scan_tasks r n TPriority_NORMAL q 0 [] {} = Some (k, w)" using Some a by simp
    from scan_tasks_bounds [OF s] have k: "k < length q" by simp
    then have "k < 2 ^ 31" using len by simp
    then have si: "sint (word_of_nat k :: 32 word) = int k" by (rule sint_index)
    from sp s have h: "w = task_user (q ! k)" "proper r n (q ! k)" "\<forall>j < k. \<not> proper r n (q ! j)"
      by auto
    have tk: "task_type (q ! k) = TTaskType_PUSH" using set k nth_mem by blast
    have ex: "\<not> (\<forall>t \<in> set q. \<not> proper r n t)" using h(2) k nth_mem by blast
    have g: "get_next_task_index r n q TPriority_NORMAL
               = Inr (word_of_nat k, mark_running r TTaskType_PUSH (task_user (q ! k)))"
      by (simp add: get_next_task_index_def s h(1) tk)
    show ?thesis
      unfolding g using si k h(2,3) ex by auto
  qed
qed






lemma single_task_selected:
  "get_next_task_index r n [task] TPriority_NORMAL
     = Inr (0, mark_running r (task_type task) (task_user task))"
proof (cases "scan_tasks r n TPriority_NORMAL [task] 0 [] {}")
  case None
  then show ?thesis by (simp add: get_next_task_index_def)
next
  case (Some a)
  then have "a = (0, task_user task)"
    by (auto simp: Let_def task_user_def split: if_splits option.splits)
  then show ?thesis using Some by (simp add: get_next_task_index_def)
qed

lemma stale_high_pool_eq:
  "stale_high_pool =
     \<lparr>tasks = [push_task 1 (Some ''A'') None, push_task 2 None (Some TPriority_HIGH)],
      reg = \<lparr>s_task_signatures = (\<lambda>ty. if ty = TTaskType_PUSH then {1, 2} else {}),
             s_running_task_user_count = (\<lambda>ty user. 0),
             s_total_task_user_count =
               (\<lambda>ty user. if ty = TTaskType_PUSH \<and> (user = ''A'' \<or> user = []) then 1 else 0),
             s_total_task_count = (\<lambda>ty. if ty = TTaskType_PUSH then 2 else 0)\<rparr>\<rparr>"
  by (auto simp: stale_high_pool_def submit_task_def record_task_info_def idle_registry_def
      push_task_def task_user_def Let_def fun_eq_iff)

text \<open>
  The registry \<open>drained_registry\<close> is what the code leaves behind after two push tasks:
  a high lane worker takes the task without \<open>resource_info\<close> under the user left over
  from the task before it, its removal decrements the running count of the empty user
  below zero, and a normal lane worker then takes and removes the other task.
\<close>

lemma drained_registry_reached:
  "push_worker_select TPriority_HIGH 2 stale_high_pool
     = Inr (Selected (push_task 2 None (Some TPriority_HIGH)),
            \<lparr>tasks = [push_task 1 (Some ''A'') None],
             reg = mark_running (reg stale_high_pool) TTaskType_PUSH ''A''\<rparr>)
   \<and> push_worker_select TPriority_NORMAL 2
        \<lparr>tasks = [push_task 1 (Some ''A'') None],
         reg = remove_task_info (mark_running (reg stale_high_pool) TTaskType_PUSH ''A'')
                 TTaskType_PUSH 2 []\<rparr>
     = Inr (Selected (push_task 1 (Some ''A'') None),
            \<lparr>tasks = [],
             reg = mark_running
                     (remove_task_info (mark_running (reg stale_high_pool) TTaskType_PUSH ''A'')
                        TTaskType_PUSH 2 [])
                     TTaskType_PUSH ''A''\<rparr>)
   \<and> remove_task_info
        (mark_running
           (remove_task_info (mark_running (reg stale_high_pool) TTaskType_PUSH ''A'')
              TTaskType_PUSH 2 [])
           TTaskType_PUSH ''A'')
        TTaskType_PUSH 1 ''A''
     = drained_registry"
proof (intro conjI)
  show "push_worker_select TPriority_HIGH 2 stale_high_pool
     = Inr (Selected (push_task 2 None (Some TPriority_HIGH)),
            \<lparr>tasks = [push_task 1 (Some ''A'') None],
             reg = mark_running (reg stale_high_pool) TTaskType_PUSH ''A''\<rparr>)"
    by (simp add: stale_high_pool_eq push_worker_select_def get_next_task_index_def
        push_task_def Let_def)
next
  show "push_worker_select TPriority_NORMAL 2
        \<lparr>tasks = [push_task 1 (Some ''A'') None],
         reg = remove_task_info (mark_running (reg stale_high_pool) TTaskType_PUSH ''A'')
                 TTaskType_PUSH 2 []\<rparr>
     = Inr (Selected (push_task 1 (Some ''A'') None),
            \<lparr>tasks = [],
             reg = mark_running
                     (remove_task_info (mark_running (reg stale_high_pool) TTaskType_PUSH ''A'')
                        TTaskType_PUSH 2 [])
                     TTaskType_PUSH ''A''\<rparr>)"
    by (simp add: push_worker_select_def single_task_selected push_task_def task_user_def)
next
  show "remove_task_info
        (mark_running
           (remove_task_info (mark_running (reg stale_high_pool) TTaskType_PUSH ''A'')
              TTaskType_PUSH 2 [])
           TTaskType_PUSH ''A'')
        TTaskType_PUSH 1 ''A''
     = drained_registry"
    by (auto simp: stale_high_pool_eq remove_task_info_def mark_running_def drained_registry_def
        Let_def fun_eq_iff)
qed




end
